theory Spec2Isabelle
  imports Main
begin

section \<open>Characters and strings\<close>

text \<open>
  A Python \<open>str\<close> is modelled as a \<open>string\<close>; a \<open>char\<close> stands for a code point below
  256.  The classes \<open>\s\<close> and \<open>\w\<close> of the \<open>re\<close> module are given for that range.
\<close>

abbreviation NL :: char where
  "NL \<equiv> CHR 0x0A"

definition code :: "char \<Rightarrow> nat" where
  "code c = of_char c"

definition between :: "nat \<Rightarrow> nat \<Rightarrow> char \<Rightarrow> bool" where
  "between lo hi c = (lo \<le> code c \<and> code c \<le> hi)"

definition is_space :: "char \<Rightarrow> bool" where
  "is_space c = (between 9 13 c \<or> between 28 32 c \<or> code c = 133 \<or> code c = 160)"

definition is_word :: "char \<Rightarrow> bool" where
  "is_word c = (between 48 57 c \<or> between 65 90 c \<or> c = CHR ''_'' \<or> between 97 122 c
     \<or> code c = 170 \<or> code c = 178 \<or> code c = 179 \<or> code c = 181 \<or> code c = 185
     \<or> code c = 186 \<or> between 188 190 c \<or> between 192 214 c \<or> between 216 246 c
     \<or> between 248 255 c)"

section \<open>The regular expressions of the \<open>re\<close> module\<close>

datatype flag = MULTILINE | DOTALL

datatype item = Ch char | Range char char | WordCls

datatype atom = Lit char | Dot | Space | OneOf "item list"

datatype regex =
    Atom atom
  | Str string
  | Rep atom nat bool
  | Seq regex regex
  | Alt regex regex
  | Group nat regex
  | Bol
  | Eol
  | NotAhead regex

type_synonym groups = "nat \<rightharpoonup> string"
type_synonym mstate = "char option \<times> string \<times> groups"

fun in_item :: "item \<Rightarrow> char \<Rightarrow> bool" where
  "in_item (Ch c) x = (x = c)"
| "in_item (Range a b) x = between (code a) (code b) x"
| "in_item WordCls x = is_word x"

fun accepts :: "flag list \<Rightarrow> atom \<Rightarrow> char \<Rightarrow> bool" where
  "accepts fl (Lit c) x = (x = c)"
| "accepts fl Dot x = (DOTALL \<in> set fl \<or> x \<noteq> NL)"
| "accepts fl Space x = is_space x"
| "accepts fl (OneOf items) x = list_ex (\<lambda>i. in_item i x) items"

fun rep :: "flag list \<Rightarrow> atom \<Rightarrow> bool \<Rightarrow> nat \<Rightarrow> char option \<Rightarrow> string \<Rightarrow> groups \<Rightarrow> mstate list" where
  "rep fl a greedy n p [] g = (if n = 0 then [(p, [], g)] else [])"
| "rep fl a greedy n p (x # xs) g =
     (let stop = (if n = 0 then [(p, x # xs, g)] else []);
          more = (if accepts fl a x then rep fl a greedy (n - 1) (Some x) xs g else [])
      in if greedy then more @ stop else stop @ more)"

fun run :: "flag list \<Rightarrow> regex \<Rightarrow> mstate \<Rightarrow> mstate list" where
  "run fl (Atom a) (p, xs, g) =
     (case xs of [] \<Rightarrow> [] | x # t \<Rightarrow> if accepts fl a x then [(Some x, t, g)] else [])"
| "run fl (Str s) (p, xs, g) =
     (if take (length s) xs = s
      then [(if s = [] then p else Some (last s), drop (length s) xs, g)] else [])"
| "run fl (Rep a n greedy) (p, xs, g) = rep fl a greedy n p xs g"
| "run fl (Seq r1 r2) st = concat (map (run fl r2) (run fl r1 st))"
| "run fl (Alt r1 r2) st = run fl r1 st @ run fl r2 st"
| "run fl (Group k r) (p, xs, g) =
     map (\<lambda>(p', xs', g'). (p', xs', g'(k \<mapsto> take (length xs - length xs') xs)))
       (run fl r (p, xs, g))"
| "run fl Bol (p, xs, g) =
     (if p = None \<or> (MULTILINE \<in> set fl \<and> p = Some NL) then [(p, xs, g)] else [])"
| "run fl Eol (p, xs, g) =
     (if xs = [] \<or> xs = [NL] \<or> (MULTILINE \<in> set fl \<and> hd xs = NL) then [(p, xs, g)] else [])"
| "run fl (NotAhead r) st = (if run fl r st = [] then [st] else [])"

definition match_at :: "flag list \<Rightarrow> regex \<Rightarrow> bool \<Rightarrow> char option \<Rightarrow> string \<Rightarrow> mstate option" where
  "match_at fl r must_advance p xs =
     find (\<lambda>(p', xs', g). \<not> must_advance \<or> length xs' < length xs) (run fl r (p, xs, Map.empty))"

fun search :: "flag list \<Rightarrow> regex \<Rightarrow> bool \<Rightarrow> char option \<Rightarrow> string \<Rightarrow> (string \<times> string \<times> mstate) option" where
  "search fl r adv p [] =
     (case match_at fl r adv p [] of
        Some st \<Rightarrow> Some ([], [], st)
      | None \<Rightarrow> None)"
| "search fl r adv p (x # t) =
     (case match_at fl r adv p (x # t) of
        Some (p', xs', g) \<Rightarrow> Some ([], take (length (x # t) - length xs') (x # t), (p', xs', g))
      | None \<Rightarrow>
          (case search fl r False (Some x) t of
             None \<Rightarrow> None
           | Some (sk, whole, st) \<Rightarrow> Some (x # sk, whole, st)))"


lemma rep_length:
  "(p', xs', g') \<in> set (rep fl a greedy n p xs g) \<Longrightarrow> length xs' \<le> length xs"
proof (induction xs arbitrary: n p)
  case Nil
  then show ?case by (simp split: if_splits)
next
  case (Cons x xs)
  then show ?case by (fastforce simp: Let_def split: if_splits)
qed

lemma run_length:
  "(p', xs', g') \<in> set (run fl r (p, xs, g)) \<Longrightarrow> length xs' \<le> length xs"
proof (induction r arbitrary: p xs g p' xs' g')
  case (Atom a)
  then show ?case by (auto split: list.splits if_splits)
next
  case (Str s)
  then show ?case by (auto split: if_splits)
next
  case (Rep a n greedy)
  then show ?case by (auto dest: rep_length)
next
  case (Seq r1 r2)
  from Seq.prems obtain q ys h where mid: "(q, ys, h) \<in> set (run fl r1 (p, xs, g))"
    and fin: "(p', xs', g') \<in> set (run fl r2 (q, ys, h))"
    by auto
  from Seq.IH(1)[OF mid] Seq.IH(2)[OF fin] show ?case by simp
next
  case (Alt r1 r2)
  then show ?case by auto
next
  case (Group k r)
  then show ?case by auto
next
  case Bol
  then show ?case by (auto split: if_splits)
next
  case Eol
  then show ?case by (auto split: if_splits)
next
  case (NotAhead r)
  then show ?case by (auto split: if_splits)
qed

lemma match_at_length:
  assumes "match_at fl r adv p xs = Some (p', xs', g')"
  shows "length xs' \<le> length xs" and "adv \<Longrightarrow> length xs' < length xs"
proof -
  from assms have mem: "(p', xs', g') \<in> set (run fl r (p, xs, Map.empty))"
    and ok: "\<not> adv \<or> length xs' < length xs"
    by (auto simp: match_at_def find_Some_iff in_set_conv_nth)
  from mem show "length xs' \<le> length xs" by (rule run_length)
  from ok show "adv \<Longrightarrow> length xs' < length xs" by simp
qed

lemma search_length:
  "search fl r adv p xs = Some (sk, whole, (p', xs', g')) \<Longrightarrow>
     length xs' + length sk \<le> length xs \<and> whole = take (length xs - length sk - length xs') (drop (length sk) xs)
     \<and> (adv \<and> sk = [] \<longrightarrow> length xs' < length xs)"
proof (induction xs arbitrary: adv p sk)
  case Nil
  then show ?case
    by (auto split: option.splits dest: match_at_length)
next
  case (Cons x t)
  show ?case
  proof (cases "match_at fl r adv p (x # t)")
    case (Some st)
    obtain q ys h where st: "st = (q, ys, h)" by (cases st) auto
    with Some Cons.prems have eq: "sk = []" "whole = take (length (x # t) - length ys) (x # t)"
      "p' = q" "xs' = ys" "g' = h" by auto
    from match_at_length[OF Some[unfolded st]] eq show ?thesis by auto
  next
    case None
    with Cons.prems obtain sk0 where rec: "search fl r False (Some x) t = Some (sk0, whole, (p', xs', g'))"
      and sk: "sk = x # sk0"
      by (auto split: option.splits)
    from Cons.IH[OF rec] sk show ?thesis by auto
  qed
qed

text \<open>
  \<open>re.sub\<close>: the loop of the \<open>re\<close> module over the successive matches.  After an empty
  match the next match at the same place has to be non-empty (\<open>must_advance\<close>).
\<close>

function sub_loop :: "flag list \<Rightarrow> regex \<Rightarrow> (groups \<Rightarrow> string \<Rightarrow> string) \<Rightarrow> bool \<Rightarrow> char option \<Rightarrow> string \<Rightarrow> string" where
  "sub_loop fl r f adv p xs =
     (case search fl r adv p xs of
        None \<Rightarrow> xs
      | Some (sk, whole, (p', xs', g)) \<Rightarrow> sk @ f g whole @ sub_loop fl r f (whole = []) p' xs')"
  by pat_completeness auto
termination
proof (relation "measure (\<lambda>(fl, r, f, adv, p, xs). 2 * length xs + (if adv then 0 else 1))", goal_cases)
  case 1
  show ?case by simp
next
  case (2 fl r f adv p xs x2 sk y whole z p' w xs' g)
  then have s: "search fl r adv p xs = Some (sk, whole, (p', xs', g))" by simp
  have pos: "sk \<noteq> [] \<Longrightarrow> 0 < length sk" by simp
  from search_length[OF s] pos
  have "2 * length xs' + (if whole = [] then 0 else 1) < 2 * length xs + (if adv then 0 else 1)"
    by (cases "sk = []"; cases adv; cases "whole = []"; simp; arith?)
  then show ?case by simp
qed


text \<open>
  \<open>re.findall\<close>: the same loop, collecting one item per match.  With no group in the
  pattern the item is the matched text, with one group that group's text, with more a
  tuple of all groups; a group that took no part yields the empty string.
\<close>

datatype found = FStr string | FTuple "string list"

fun ngroups :: "regex \<Rightarrow> nat" where
  "ngroups (Atom a) = 0"
| "ngroups (Str s) = 0"
| "ngroups (Rep a n greedy) = 0"
| "ngroups (Seq r1 r2) = max (ngroups r1) (ngroups r2)"
| "ngroups (Alt r1 r2) = max (ngroups r1) (ngroups r2)"
| "ngroups (Group k r) = max k (ngroups r)"
| "ngroups Bol = 0"
| "ngroups Eol = 0"
| "ngroups (NotAhead r) = ngroups r"

definition group_text :: "groups \<Rightarrow> nat \<Rightarrow> string" where
  "group_text g k = (case g k of None \<Rightarrow> [] | Some s \<Rightarrow> s)"

definition found_item :: "regex \<Rightarrow> groups \<Rightarrow> string \<Rightarrow> found" where
  "found_item r g whole =
     (if ngroups r = 0 then FStr whole
      else if ngroups r = 1 then FStr (group_text g 1)
      else FTuple (map (group_text g) [1..<Suc (ngroups r)]))"

function findall_loop :: "flag list \<Rightarrow> regex \<Rightarrow> bool \<Rightarrow> char option \<Rightarrow> string \<Rightarrow> found list" where
  "findall_loop fl r adv p xs =
     (case search fl r adv p xs of
        None \<Rightarrow> []
      | Some (sk, whole, (p', xs', g)) \<Rightarrow> found_item r g whole # findall_loop fl r (whole = []) p' xs')"
  by pat_completeness auto
termination
proof (relation "measure (\<lambda>(fl, r, adv, p, xs). 2 * length xs + (if adv then 0 else 1))", goal_cases)
  case 1
  show ?case by simp
next
  case (2 fl r adv p xs x2 sk y whole z p' w xs' g)
  then have s: "search fl r adv p xs = Some (sk, whole, (p', xs', g))" by simp
  have pos: "sk \<noteq> [] \<Longrightarrow> 0 < length sk" by simp
  from search_length[OF s] pos
  have "2 * length xs' + (if whole = [] then 0 else 1) < 2 * length xs + (if adv then 0 else 1)"
    by (cases "sk = []"; cases adv; cases "whole = []"; simp; arith?)
  then show ?case by simp
qed

declare sub_loop.simps [simp del] findall_loop.simps [simp del]

datatype py_error = InvalidGroupReference | IndexError | TypeError | ValueError

definition re_search :: "regex \<Rightarrow> string \<Rightarrow> flag list \<Rightarrow> (string \<times> string \<times> mstate) option" where
  "re_search r s fl = search fl r False None s"

definition re_findall :: "regex \<Rightarrow> string \<Rightarrow> flag list \<Rightarrow> found list" where
  "re_findall r s fl = findall_loop fl r False None s"

text \<open>
  A replacement template is text with group references; a reference to a group the
  pattern does not have is rejected when the template is compiled, before any match.
\<close>

datatype piece = Txt string | Ref nat

fun expand :: "piece list \<Rightarrow> groups \<Rightarrow> string \<Rightarrow> string" where
  "expand [] g whole = []"
| "expand (Txt s # ps) g whole = s @ expand ps g whole"
| "expand (Ref k # ps) g whole = (if k = 0 then whole else group_text g k) @ expand ps g whole"

fun refs_ok :: "regex \<Rightarrow> piece list \<Rightarrow> bool" where
  "refs_ok r [] = True"
| "refs_ok r (Txt s # ps) = refs_ok r ps"
| "refs_ok r (Ref k # ps) = (k \<le> ngroups r \<and> refs_ok r ps)"

definition re_sub :: "regex \<Rightarrow> piece list \<Rightarrow> string \<Rightarrow> flag list \<Rightarrow> py_error + string" where
  "re_sub r repl s fl =
     (if refs_ok r repl then Inr (sub_loop fl r (expand repl) False None s)
      else Inl InvalidGroupReference)"

text \<open>
  \<open>re.sub\<close> with a function as replacement.  The function here reads group 1 of the match;
  \<open>match.group(1)\<close> raises IndexError on a pattern without that group, at the first match.
\<close>

definition re_sub_group1 :: "regex \<Rightarrow> (string option \<Rightarrow> string \<Rightarrow> string) \<Rightarrow> string \<Rightarrow> py_error + string" where
  "re_sub_group1 r f s =
     (if 1 \<le> ngroups r then Inr (sub_loop [] r (\<lambda>g whole. f (g 1) whole) False None s)
      else if search [] r False None s = None then Inr s
      else Inl IndexError)"

section \<open>The formatter\<close>

record Regex =
  match_pattern :: regex
  replace_pattern :: "piece list"
  flags :: "flag list"

text \<open>
  The eleven rules of \<open>_REPLACE_REGEXES\<close>, in the order of the source:
  \<^enum> \<^verbatim>\<open>\n{2,}\<close> to a newline;
  \<^enum> \<^verbatim>\<open> {2,}\<close> to a space;
  \<^enum> \<^verbatim>\<open>^\s+|\s+$\<close> to nothing;
  \<^enum> \<^verbatim>\<open>\n*$\<close> to a newline;
  \<^enum> \<^verbatim>\<open>\*\*(.*?)\*\*\<close> to \<^verbatim>\<open><b>\1</b>\<close>;
  \<^enum> \<^verbatim>\<open>\*(.*?)\*\<close> to \<^verbatim>\<open><i>\1</i>\<close>;
  \<^enum> \<^verbatim>\<open>\_(.*?)\_\<close> to \<^verbatim>\<open><i>\1</i>\<close>;
  \<^enum> \<^verbatim>\<open>\~\~(.*?)\~\~\<close> to \<^verbatim>\<open><s>\1</s>\<close>;
  \<^enum> \<^verbatim>\<open>#\s*(.*)\<close> to \<^verbatim>\<open><h1>\1</h1>\<close>;
  \<^enum> \<^verbatim>\<open>^\/\n(.*?)\n\/$\<close> to \<^verbatim>\<open><div class=stanza>\n\1\n</div>\<close>, with MULTILINE and S;
  \<^enum> \<^verbatim>\<open>^(?!<)(?!.*>\n)(.*?)\n\<close> to \<^verbatim>\<open><p>\1</p>\<close>, with MULTILINE.
\<close>

definition REPLACE_REGEXES :: "Regex list" where
  "REPLACE_REGEXES =
    [ \<comment> \<open>rule 1\<close>
      \<lparr> match_pattern = Rep (Lit NL) 2 True,
        replace_pattern = [Txt [NL]], flags = [] \<rparr>,
      \<comment> \<open>rule 2\<close>
      \<lparr> match_pattern = Rep (Lit CHR '' '') 2 True,
        replace_pattern = [Txt '' ''], flags = [] \<rparr>,
      \<comment> \<open>rule 3\<close>
      \<lparr> match_pattern = Alt (Seq Bol (Rep Space 1 True)) (Seq (Rep Space 1 True) Eol),
        replace_pattern = [], flags = [] \<rparr>,
      \<comment> \<open>rule 4\<close>
      \<lparr> match_pattern = Seq (Rep (Lit NL) 0 True) Eol,
        replace_pattern = [Txt [NL]], flags = [] \<rparr>,
      \<comment> \<open>rule 5\<close>
      \<lparr> match_pattern = Seq (Str ''**'') (Seq (Group 1 (Rep Dot 0 False)) (Str ''**'')),
        replace_pattern = [Txt ''<b>'', Ref 1, Txt ''</b>''], flags = [] \<rparr>,
      \<comment> \<open>rule 6\<close>
      \<lparr> match_pattern = Seq (Str ''*'') (Seq (Group 1 (Rep Dot 0 False)) (Str ''*'')),
        replace_pattern = [Txt ''<i>'', Ref 1, Txt ''</i>''], flags = [] \<rparr>,
      \<comment> \<open>rule 7\<close>
      \<lparr> match_pattern = Seq (Str ''_'') (Seq (Group 1 (Rep Dot 0 False)) (Str ''_'')),
        replace_pattern = [Txt ''<i>'', Ref 1, Txt ''</i>''], flags = [] \<rparr>,
      \<comment> \<open>rule 8\<close>
      \<lparr> match_pattern = Seq (Str ''~~'') (Seq (Group 1 (Rep Dot 0 False)) (Str ''~~'')),
        replace_pattern = [Txt ''<s>'', Ref 1, Txt ''</s>''], flags = [] \<rparr>,
      \<comment> \<open>rule 9\<close>
      \<lparr> match_pattern = Seq (Str ''#'') (Seq (Rep Space 0 True) (Group 1 (Rep Dot 0 True))),
        replace_pattern = [Txt ''<h1>'', Ref 1, Txt ''</h1>''], flags = [] \<rparr>,
      \<comment> \<open>rule 10\<close>
      \<lparr> match_pattern =
          Seq Bol (Seq (Str (''/'' @ [NL])) (Seq (Group 1 (Rep Dot 0 False)) (Seq (Str (NL # ''/'')) Eol))),
        replace_pattern = [Txt (''<div class=stanza>'' @ [NL]), Ref 1, Txt (NL # ''</div>'')],
        flags = [MULTILINE, DOTALL] \<rparr>,
      \<comment> \<open>rule 11\<close>
      \<lparr> match_pattern =
          Seq Bol (Seq (NotAhead (Str ''<''))
            (Seq (NotAhead (Seq (Rep Dot 0 True) (Str (''>'' @ [NL]))))
              (Seq (Group 1 (Rep Dot 0 False)) (Str [NL])))),
        replace_pattern = [Txt ''<p>'', Ref 1, Txt ''</p>''], flags = [MULTILINE] \<rparr> ]"

fun apply_rules :: "Regex list \<Rightarrow> string \<Rightarrow> py_error + string" where
  "apply_rules [] content = Inr content"
| "apply_rules (rx # rest) content =
     (case re_sub (match_pattern rx) (replace_pattern rx) content (flags rx) of
        Inl e \<Rightarrow> Inl e
      | Inr replaced \<Rightarrow> apply_rules rest replaced)"

definition replace_file_marks :: "string \<Rightarrow> py_error + string" where
  "replace_file_marks content = apply_rules REPLACE_REGEXES content"

text \<open>\<open>^---\s*\n(.*?)\n---\<close> with DOTALL, and \<open>^\s*([\w\-]+)\s*:\s*(.+?)\s*$\<close> with MULTILINE.\<close>

definition block_pattern :: regex where
  "block_pattern =
     Seq Bol (Seq (Str ''---'') (Seq (Rep Space 0 True) (Seq (Str [NL])
       (Seq (Group 1 (Rep Dot 0 False)) (Str (NL # ''---''))))))"

definition entry_pattern :: regex where
  "entry_pattern =
     Seq Bol (Seq (Rep Space 0 True) (Seq (Group 1 (Rep (OneOf [WordCls, Ch CHR ''-'']) 1 True))
       (Seq (Rep Space 0 True) (Seq (Str '':'') (Seq (Rep Space 0 True)
         (Seq (Group 2 (Rep Dot 1 False)) (Seq (Rep Space 0 True) Eol)))))))"

text \<open>
  \<open>dict\<close> of a list: every item has to be a sequence of two elements (a string of two
  characters is one); a later key overwrites an earlier one.
\<close>

fun py_dict :: "found list \<Rightarrow> (string \<rightharpoonup> string) \<Rightarrow> py_error + (string \<rightharpoonup> string)" where
  "py_dict [] d = Inr d"
| "py_dict (FTuple [k, v] # rest) d = py_dict rest (d(k \<mapsto> v))"
| "py_dict (FTuple other # rest) d = Inl ValueError"
| "py_dict (FStr [k, v] # rest) d = py_dict rest (d([k] \<mapsto> [v]))"
| "py_dict (FStr other # rest) d = Inl ValueError"

definition extract_metadata :: "string \<Rightarrow> py_error + ((string \<rightharpoonup> string) \<times> string)" where
  "extract_metadata content =
     (case re_search block_pattern content [DOTALL] of
        None \<Rightarrow> Inr (Map.empty, content)
      | Some (skipped, whole, (p, rest, g)) \<Rightarrow>
          (case g 1 of
             None \<Rightarrow> Inl TypeError
           | Some block \<Rightarrow>
               (case py_dict (re_findall entry_pattern block [MULTILINE]) Map.empty of
                  Inl e \<Rightarrow> Inl e
                | Inr metadata \<Rightarrow>
                    let start = length skipped; stop = start + length whole
                    in Inr (metadata, take start content @ drop stop content))))"

text \<open>\<open>\$([A-Za-z0-9_\-]+)\$\<close>\<close>

definition placeholder_pattern :: regex where
  "placeholder_pattern =
     Seq (Str ''$'')
       (Seq (Group 1 (Rep (OneOf [Range CHR ''A'' CHR ''Z'', Range CHR ''a'' CHR ''z'',
                 Range CHR ''0'' CHR ''9'', Ch CHR ''_'', Ch CHR ''-'']) 1 True))
         (Str ''$''))"

definition dict_get :: "(string \<rightharpoonup> string) \<Rightarrow> string option \<Rightarrow> string \<Rightarrow> string" where
  "dict_get d key dflt = (case key of None \<Rightarrow> dflt
     | Some k \<Rightarrow> (case d k of None \<Rightarrow> dflt | Some v \<Rightarrow> v))"

definition merge_with_template :: "string \<Rightarrow> string \<Rightarrow> (string \<rightharpoonup> string) \<Rightarrow> py_error + string" where
  "merge_with_template to_merge_content template_content metadata =
     (let metadata = metadata(''body'' \<mapsto> to_merge_content)
      in re_sub_group1 placeholder_pattern (\<lambda>key whole. dict_get metadata key whole) template_content)"




section \<open>Notions used to state the claims\<close>

text \<open>The character before a position: the last one of the text consumed so far.\<close>

definition last_or :: "char option \<Rightarrow> string \<Rightarrow> char option" where
  "last_or p ys = (if ys = [] then p else Some (last ys))"

text \<open>
  The characters of a placeholder's identifier (letters, digits, underscore, hyphen), and
  the substitution read as one scan from left to right: at a \<open>$\<close> followed by a
  non-empty run of identifier characters and a closing \<open>$\<close> the token is replaced by the
  dictionary's value, or kept when the dictionary has no such key, and the scan goes on
  behind the token; any other character is copied.
\<close>

definition identifier_char :: "char \<Rightarrow> bool" where
  "identifier_char c = (between 65 90 c \<or> between 97 122 c \<or> between 48 57 c
      \<or> c = CHR ''_'' \<or> c = CHR ''-'')"

function fill_placeholders :: "(string \<rightharpoonup> string) \<Rightarrow> string \<Rightarrow> string" where
  "fill_placeholders d [] = []"
| "fill_placeholders d (c # t) =
     (let name = takeWhile identifier_char t; rest = dropWhile identifier_char t
      in if c = CHR ''$'' \<and> name \<noteq> [] \<and> take 1 rest = ''$''
         then (case d name of None \<Rightarrow> ''$'' @ name @ ''$'' | Some v \<Rightarrow> v) @ fill_placeholders d (tl rest)
         else c # fill_placeholders d t)"
  by pat_completeness auto
termination
proof (relation "measure (\<lambda>(d, s). length s)", goal_cases)
  case 1
  show ?case by simp
next
  case (2 d c t name rest)
  have "length (dropWhile identifier_char t) \<le> length t" by (rule length_dropWhile_le)
  with 2 show ?case by simp
next
  case (3 d c t name rest)
  then show ?case by simp
qed

declare fill_placeholders.simps(2) [simp del]

text \<open>
  The scan of a template into its segments, which never looks at the mapping, and the text
  a segment contributes to the output.
\<close>

datatype segment = Literal char | Token string

function segments :: "string \<Rightarrow> segment list" where
  "segments [] = []"
| "segments (c # t) =
     (let name = takeWhile identifier_char t; rest = dropWhile identifier_char t
      in if c = CHR ''$'' \<and> name \<noteq> [] \<and> take 1 rest = ''$''
         then Token name # segments (tl rest)
         else Literal c # segments t)"
  by pat_completeness auto
termination
proof (relation "measure length", goal_cases)
  case 1
  show ?case by simp
next
  case (2 c t name rest)
  have "length (dropWhile identifier_char t) \<le> length t" by (rule length_dropWhile_le)
  with 2 show ?case by simp
next
  case (3 c t name rest)
  then show ?case by simp
qed

declare segments.simps(2) [simp del]

fun render :: "(string \<rightharpoonup> string) \<Rightarrow> segment \<Rightarrow> string" where
  "render d (Literal c) = [c]"
| "render d (Token name) = (case d name of None \<Rightarrow> ''$'' @ name @ ''$'' | Some v \<Rightarrow> v)"



















section \<open>Groups of a match\<close>

lemma rep_groups: "(p', xs', g') \<in> set (rep fl a greedy n p xs g) \<Longrightarrow> g' = g"
proof (induction xs arbitrary: n p)
  case Nil
  then show ?case by (simp split: if_splits)
next
  case (Cons x xs)
  then show ?case by (fastforce simp: Let_def split: if_splits)
qed

lemma run_keeps_groups:
  "(p', xs', g') \<in> set (run fl r (p, xs, g)) \<Longrightarrow> g k \<noteq> None \<Longrightarrow> g' k \<noteq> None"
proof (induction r arbitrary: p xs g p' xs' g')
  case (Atom a)
  then show ?case by (auto split: list.splits if_splits)
next
  case (Str s)
  then show ?case by (auto split: if_splits)
next
  case (Rep a n greedy)
  then show ?case by (auto dest: rep_groups)
next
  case (Seq r1 r2)
  from Seq.prems(1) obtain q ys h where mid: "(q, ys, h) \<in> set (run fl r1 (p, xs, g))"
    and fin: "(p', xs', g') \<in> set (run fl r2 (q, ys, h))"
    by auto
  from Seq.IH(1)[OF mid Seq.prems(2)] have "h k \<noteq> None" .
  from Seq.IH(2)[OF fin this] show ?case .
next
  case (Alt r1 r2)
  then show ?case by auto
next
  case (Group j r)
  then show ?case by (auto split: if_splits)
next
  case Bol
  then show ?case by (auto split: if_splits)
next
  case Eol
  then show ?case by (auto split: if_splits)
next
  case (NotAhead r)
  then show ?case by (auto split: if_splits)
qed

fun binds :: "regex \<Rightarrow> nat \<Rightarrow> bool" where
  "binds (Seq r1 r2) k = (binds r1 k \<or> binds r2 k)"
| "binds (Alt r1 r2) k = (binds r1 k \<and> binds r2 k)"
| "binds (Group j r) k = (j = k \<or> binds r k)"
| "binds r k = False"

lemma run_binds:
  "(p', xs', g') \<in> set (run fl r (p, xs, g)) \<Longrightarrow> binds r k \<Longrightarrow> g' k \<noteq> None"
proof (induction r arbitrary: p xs g p' xs' g')
  case (Seq r1 r2)
  from Seq.prems(1) obtain q ys h where mid: "(q, ys, h) \<in> set (run fl r1 (p, xs, g))"
    and fin: "(p', xs', g') \<in> set (run fl r2 (q, ys, h))"
    by auto
  show ?case
  proof (cases "binds r2 k")
    case True
    from Seq.IH(2)[OF fin True] show ?thesis .
  next
    case False
    with Seq.prems(2) have "binds r1 k" by simp
    from Seq.IH(1)[OF mid this] have "h k \<noteq> None" .
    from run_keeps_groups[OF fin this] show ?thesis .
  qed
next
  case (Alt r1 r2)
  then show ?case by auto
next
  case (Group j r)
  then show ?case by (auto split: if_splits)
qed simp_all

lemma match_at_mem:
  "match_at fl r adv p xs = Some st \<Longrightarrow> st \<in> set (run fl r (p, xs, Map.empty))"
  by (auto simp: match_at_def find_Some_iff in_set_conv_nth)

lemma search_binds:
  "search fl r adv p xs = Some (sk, whole, (p', xs', g')) \<Longrightarrow> binds r k \<Longrightarrow> g' k \<noteq> None"
proof (induction xs arbitrary: adv p sk)
  case Nil
  then show ?case by (auto split: option.splits dest!: match_at_mem dest: run_binds)
next
  case (Cons x t)
  show ?case
  proof (cases "match_at fl r adv p (x # t)")
    case (Some st)
    with Cons.prems(1) have "st = (p', xs', g')" by (auto split: prod.splits)
    with Some Cons.prems(2) show ?thesis by (auto dest!: match_at_mem dest: run_binds)
  next
    case None
    with Cons.prems(1) obtain sk0 where "search fl r False (Some x) t = Some (sk0, whole, (p', xs', g'))"
      by (auto split: option.splits)
    from Cons.IH[OF this Cons.prems(2)] show ?thesis .
  qed
qed

lemma findall_pairs:
  "ngroups r = 2 \<Longrightarrow> \<exists>d'. py_dict (findall_loop fl r adv p xs) d = Inr d'"
proof (induction fl r adv p xs arbitrary: d rule: findall_loop.induct)
  case (1 fl r adv p xs)
  show ?case
  proof (cases "search fl r adv p xs")
    case None
    then show ?thesis by (subst findall_loop.simps) simp
  next
    case (Some m)
    obtain sk whole p' xs' g where m: "m = (sk, whole, (p', xs', g))" by (cases m) auto
    have two: "[1..<Suc 2] = [1, 2]" by (simp add: upt_rec)
    from "1.IH"[OF Some[unfolded m] refl refl refl refl "1.prems"]
    obtain d' where "py_dict (findall_loop fl r (whole = []) p' xs') (d(group_text g 1 \<mapsto> group_text g 2)) = Inr d'"
      by blast
    with Some m "1.prems" two show ?thesis
      by (subst findall_loop.simps) (simp add: found_item_def)
  qed
qed

section \<open>Facts about the matcher and the substitution loop\<close>

lemma last_or_simps [simp]:
  "last_or p [] = p" "last_or p (ys @ [y]) = Some y" "last_or (Some x) ys = Some (last (x # ys))"
  "last_or (last_or p ys) zs = last_or p (ys @ zs)"
  by (auto simp: last_or_def)

lemma rep_suffix:
  "(p', xs', g') \<in> set (rep fl a greedy n p xs g) \<Longrightarrow>
     \<exists>ys. xs = ys @ xs' \<and> p' = last_or p ys \<and> n \<le> length ys \<and> (\<forall>c\<in>set ys. accepts fl a c) \<and> g' = g"
proof (induction xs arbitrary: n p)
  case Nil
  then show ?case by (simp split: if_splits)
next
  case (Cons x xs)
  from Cons.prems consider
    (stop) "n = 0" "(p', xs', g') = (p, x # xs, g)"
    | (more) "accepts fl a x" "(p', xs', g') \<in> set (rep fl a greedy (n - 1) (Some x) xs g)"
    by (auto simp: Let_def split: if_splits)
  then show ?case
  proof cases
    case stop
    then show ?thesis by simp
  next
    case more
    from Cons.IH[OF more(2)] obtain ys where ys: "xs = ys @ xs'" "p' = last_or (Some x) ys"
      "n - 1 \<le> length ys" "\<forall>c\<in>set ys. accepts fl a c" "g' = g"
      by blast
    with more(1) have "x # xs = (x # ys) @ xs' \<and> p' = last_or p (x # ys) \<and> n \<le> length (x # ys)
        \<and> (\<forall>c\<in>set (x # ys). accepts fl a c) \<and> g' = g"
      by (auto simp: last_or_def)
    then show ?thesis by blast
  qed
qed


lemma run_suffix:
  "(p', xs', g') \<in> set (run fl r (p, xs, g)) \<Longrightarrow> \<exists>ys. xs = ys @ xs' \<and> p' = last_or p ys"
proof (induction r arbitrary: p xs g p' xs' g')
  case (Atom a)
  then show ?case by (cases xs) (auto split: if_splits simp: last_or_def)
next
  case (Str s)
  then have "take (length s) xs = s" "xs' = drop (length s) xs" "p' = last_or p s"
    by (auto split: if_splits simp: last_or_def)
  then have "xs = s @ xs' \<and> p' = last_or p s" by (metis append_take_drop_id)
  then show ?case by blast
next
  case (Rep a n greedy)
  then show ?case by (auto dest!: rep_suffix)
next
  case (Seq r1 r2)
  from Seq.prems obtain q ys h where mid: "(q, ys, h) \<in> set (run fl r1 (p, xs, g))"
    and fin: "(p', xs', g') \<in> set (run fl r2 (q, ys, h))"
    by auto
  from Seq.IH(1)[OF mid] obtain as where as: "xs = as @ ys" "q = last_or p as" by blast
  from Seq.IH(2)[OF fin] obtain bs where bs: "ys = bs @ xs'" "p' = last_or q bs" by blast
  from as bs have "xs = (as @ bs) @ xs' \<and> p' = last_or p (as @ bs)" by simp
  then show ?case by blast
next
  case (Alt r1 r2)
  then show ?case by auto
next
  case (Group k r)
  then show ?case by auto
next
  case Bol
  then show ?case by (auto split: if_splits)
next
  case Eol
  then show ?case by (auto split: if_splits)
next
  case (NotAhead r)
  then show ?case by (auto split: if_splits)
qed

lemma match_at_first:
  "match_at fl r False p xs = (case run fl r (p, xs, Map.empty) of [] \<Rightarrow> None | st # _ \<Rightarrow> Some st)"
  by (cases "run fl r (p, xs, Map.empty)") (auto simp: match_at_def)

lemma match_at_suffix:
  "match_at fl r adv p xs = Some (p', xs', g') \<Longrightarrow> \<exists>ys. xs = ys @ xs' \<and> p' = last_or p ys"
  by (auto dest!: match_at_mem run_suffix)

lemma search_split:
  "search fl r adv p xs = Some (sk, whole, (p', xs', g')) \<Longrightarrow> xs = sk @ whole @ xs'"
proof (induction xs arbitrary: adv p sk)
  case Nil
  then show ?case by (auto split: option.splits dest!: match_at_suffix)
next
  case (Cons x t)
  show ?case
  proof (cases "match_at fl r adv p (x # t)")
    case (Some st)
    with Cons.prems have st: "st = (p', xs', g')" and sk: "sk = []"
      and whole: "whole = take (length (x # t) - length xs') (x # t)"
      by (auto split: prod.splits)
    from match_at_suffix[OF Some[unfolded st]] obtain ys where "x # t = ys @ xs'" by blast
    with sk whole show ?thesis by simp
  next
    case None
    with Cons.prems obtain sk0 where rec: "search fl r False (Some x) t = Some (sk0, whole, (p', xs', g'))"
      and sk: "sk = x # sk0"
      by (auto split: option.splits)
    from Cons.IH[OF rec] sk show ?thesis by simp
  qed
qed

lemma sub_loop_end: "sub_loop fl r f True p [] = []"
proof -
  have "match_at fl r True p [] = None"
    by (auto simp: match_at_def find_None_iff)
  then show ?thesis by (subst sub_loop.simps) simp
qed

lemma sub_loop_skip:
  assumes "match_at fl r adv p (x # t) = None"
  shows "sub_loop fl r f adv p (x # t) = x # sub_loop fl r f False (Some x) t"
  using assms
  by (subst sub_loop.simps, subst (2) sub_loop.simps) (simp split: option.splits)

lemma sub_loop_match:
  assumes "match_at fl r adv p (ys @ xs') = Some (p', xs', g)"
  shows "sub_loop fl r f adv p (ys @ xs') = f g ys @ sub_loop fl r f (ys = []) p' xs'"
proof (cases "ys @ xs'")
  case Nil
  with assms show ?thesis by (subst sub_loop.simps) simp
next
  case (Cons x t)
  have "take (length (ys @ xs') - length xs') (ys @ xs') = ys" by simp
  with assms Cons show ?thesis by (subst sub_loop.simps) (simp del: length_append)
qed

lemma sub_loop_no_match_Nil:
  assumes "match_at fl r adv p [] = None"
  shows "sub_loop fl r f adv p [] = []"
  using assms by (subst sub_loop.simps) simp

lemma sub_loop_chars:
  "(\<And>g w. set (f g w) \<subseteq> A) \<Longrightarrow> set xs \<subseteq> A \<Longrightarrow> set (sub_loop fl r f adv p xs) \<subseteq> A"
proof (induction fl r f adv p xs rule: sub_loop.induct)
  case (1 fl r f adv p xs)
  show ?case
  proof (cases "search fl r adv p xs")
    case None
    with "1.prems" show ?thesis by (subst sub_loop.simps) simp
  next
    case (Some m)
    obtain sk whole p' xs' g where m: "m = (sk, whole, (p', xs', g))" by (cases m) auto
    from search_split[OF Some[unfolded m]] have xs: "xs = sk @ whole @ xs'" .
    with "1.prems"(2) have sub: "set xs' \<subseteq> A" "set sk \<subseteq> A" by auto
    have "set (f g whole) \<subseteq> A" by (rule "1.prems"(1))
    moreover have "set (sub_loop fl r f (whole = []) p' xs') \<subseteq> A"
      by (rule "1.IH"[OF Some[unfolded m] refl refl refl refl "1.prems"(1) sub(1)])
    ultimately show ?thesis using Some m sub by (subst sub_loop.simps) auto
  qed
qed

lemma rep_greedy_all:
  "\<forall>c\<in>set xs. accepts fl a c \<Longrightarrow> n \<le> length xs \<Longrightarrow>
     \<exists>rest. rep fl a True n p xs g = (last_or p xs, [], g) # rest"
proof (induction xs arbitrary: n p)
  case Nil
  then show ?case by simp
next
  case (Cons x xs)
  from Cons.prems have "\<forall>c\<in>set xs. accepts fl a c" "n - 1 \<le> length xs" by auto
  from Cons.IH[OF this, of "Some x"] obtain rest
    where "rep fl a True (n - 1) (Some x) xs g = (last_or (Some x) xs, [], g) # rest" by blast
  with Cons.prems show ?case by (auto simp: Let_def last_or_def)
qed

lemma is_space_NL: "is_space NL" "is_space CHR '' ''"
  by (simp_all add: is_space_def between_def code_def)

lemma strip_rule_blank:
  assumes "\<forall>c\<in>set xs. is_space c"
  shows "sub_loop [] (Alt (Seq Bol (Rep Space 1 True)) (Seq (Rep Space 1 True) Eol)) (expand []) False None xs = []"
proof (cases xs)
  case Nil
  then show ?thesis by (simp add: sub_loop_no_match_Nil match_at_first)
next
  case (Cons x t)
  from assms have "\<forall>c\<in>set xs. accepts [] Space c" by simp
  from rep_greedy_all[OF this, of 1 None Map.empty] Cons obtain rest
    where "rep [] Space True 1 None xs Map.empty = (Some (last xs), [], Map.empty) # rest"
    by (auto simp: last_or_def)
  then have "match_at [] (Alt (Seq Bol (Rep Space 1 True)) (Seq (Rep Space 1 True) Eol)) False None (xs @ [])
      = Some (Some (last xs), [], Map.empty)"
    by (simp add: match_at_first)
  from sub_loop_match[OF this, of "expand []"] Cons show ?thesis
    by (simp add: sub_loop_no_match_Nil match_at_first)
qed

lemma marks_chain:
  "replace_file_marks s = apply_rules (drop 3 REPLACE_REGEXES)
     (sub_loop [] (Alt (Seq Bol (Rep Space 1 True)) (Seq (Rep Space 1 True) Eol)) (expand []) False None
       (sub_loop [] (Rep (Lit CHR '' '') 2 True) (expand [Txt '' '']) False None
         (sub_loop [] (Rep (Lit NL) 2 True) (expand [Txt [NL]]) False None s)))"
  by (simp add: replace_file_marks_def REPLACE_REGEXES_def re_sub_def)

lemma marks_of_empty: "apply_rules (drop 3 REPLACE_REGEXES) [] = Inr ''<p></p>''"
  by code_simp

lemma rep_list:
  "rep fl a greedy n p xs g =
     map (\<lambda>k. (last_or p (take k xs), drop k xs, g))
       (if greedy then rev [n..<Suc (length (takeWhile (accepts fl a) xs))]
        else [n..<Suc (length (takeWhile (accepts fl a) xs))])"
proof (induction xs arbitrary: n p)
  case Nil
  then show ?case by simp
next
  case (Cons x xs)
  let ?m = "length (takeWhile (accepts fl a) xs)"
  show ?case
  proof (cases "accepts fl a x")
    case False
    then show ?thesis by (simp add: Let_def)
  next
    case True
    have shift: "map (\<lambda>k. (last_or (Some x) (take k xs), drop k xs, g)) ks
        = map (\<lambda>k. (last_or p (take k (x # xs)), drop k (x # xs), g)) (map Suc ks)" for ks
      by (simp add: last_or_def)
    have idx: "[n..<Suc (Suc ?m)] = (if n = 0 then [0] else []) @ map Suc [n - 1..<Suc ?m]"
    proof (cases n)
      case 0
      then show ?thesis by (simp add: map_Suc_upt upt_conv_Cons del: upt_Suc)
    next
      case (Suc j)
      then show ?thesis by (simp add: map_Suc_upt del: upt_Suc)
    qed
    have stop: "(if n = 0 then [(p, x # xs, g)] else [])
        = map (\<lambda>k. (last_or p (take k (x # xs)), drop k (x # xs), g)) (if n = 0 then [0] else [])"
      by simp
    show ?thesis
      unfolding rep.simps Let_def Cons.IH shift stop using True
      by (simp only: idx takeWhile.simps if_True length_Cons map_append rev_append rev_map split: if_splits)
         (simp add: rev_map)
  qed
qed

section \<open>The placeholder pattern\<close>

lemma ident_accepts:
  "accepts [] (OneOf [Range CHR ''A'' CHR ''Z'', Range CHR ''a'' CHR ''z'',
       Range CHR ''0'' CHR ''9'', Ch CHR ''_'', Ch CHR ''-'']) = identifier_char"
  by (rule ext) (auto simp: identifier_char_def code_def between_def)

lemma concat_map_only:
  "k \<in> set ks \<Longrightarrow> distinct ks \<Longrightarrow> (\<And>j. j \<in> set ks \<Longrightarrow> j \<noteq> k \<Longrightarrow> h j = []) \<Longrightarrow> concat (map h ks) = h k"
proof (induction ks)
  case Nil
  then show ?case by simp
next
  case (Cons a ks)
  show ?case
  proof (cases "a = k")
    case True
    with Cons.prems have "\<And>j. j \<in> set ks \<Longrightarrow> h j = []" by auto
    then have "concat (map h ks) = []" by simp
    with True show ?thesis by simp
  next
    case False
    with Cons show ?thesis by auto
  qed
qed

lemma concat_map_none: "(\<And>j. j \<in> set ks \<Longrightarrow> h j = []) \<Longrightarrow> concat (map h ks) = []"
  by simp

lemma not_ident_dollar: "\<not> identifier_char CHR ''$''"
  by (simp add: identifier_char_def between_def code_def)


lemma placeholder_run:
  "run [] placeholder_pattern (p, xs, g) =
     (case xs of [] \<Rightarrow> []
      | c # t \<Rightarrow>
          if c = CHR ''$'' \<and> takeWhile identifier_char t \<noteq> [] \<and> take 1 (dropWhile identifier_char t) = ''$''
          then [(Some CHR ''$'', tl (dropWhile identifier_char t), g(1 \<mapsto> takeWhile identifier_char t))]
          else [])"
proof (cases xs)
  case Nil
  then show ?thesis by (simp add: placeholder_pattern_def)
next
  case (Cons c t)
  define m where "m = length (takeWhile identifier_char t)"
  define h where "h = (\<lambda>k. run [] (Str ''$'')
     (last_or (Some CHR ''$'') (take k t), drop k t, g(1 \<mapsto> take (length t - length (drop k t)) t)))"
  have before: "h j = []" if "j < m" for j
  proof -
    from that have "j < length t" using length_takeWhile_le[of identifier_char t] by (simp add: m_def)
    moreover from that have "identifier_char (t ! j)"
      unfolding m_def by (metis nth_mem set_takeWhileD takeWhile_nth)
    ultimately have "drop j t = t ! j # drop (Suc j) t" "t ! j \<noteq> CHR ''$''"
      using not_ident_dollar by (auto simp: Cons_nth_drop_Suc)
    then show ?thesis by (simp add: h_def)
  qed
  have at: "h m = (if take 1 (dropWhile identifier_char t) = ''$''
       then [(Some CHR ''$'', tl (dropWhile identifier_char t), g(1 \<mapsto> takeWhile identifier_char t))] else [])"
  proof -
    have "m \<le> length t" unfolding m_def by (rule length_takeWhile_le)
    then have e1: "length t - (length t - m) = m" by simp
    have e2: "take m t = takeWhile identifier_char t"
      unfolding m_def by (rule takeWhile_eq_take[symmetric])
    have e3: "drop m t = dropWhile identifier_char t"
      unfolding m_def by (rule dropWhile_eq_drop[symmetric])
    show ?thesis by (simp add: h_def e1 e2 e3 drop_Suc)
  qed
  have all: "concat (map h (rev [1..<Suc m])) = (if takeWhile identifier_char t \<noteq> [] then h m else [])"
  proof (cases "takeWhile identifier_char t = []")
    case True
    then show ?thesis by (simp add: m_def)
  next
    case False
    then have "m \<in> set (rev [1..<Suc m])" by (simp add: Suc_le_eq m_def)
    moreover have "distinct (rev [1..<Suc m])" by simp
    moreover have "\<And>j. j \<in> set (rev [1..<Suc m]) \<Longrightarrow> j \<noteq> m \<Longrightarrow> h j = []"
      by (rule before) simp
    ultimately have "concat (map h (rev [1..<Suc m])) = h m" by (rule concat_map_only)
    with False show ?thesis by simp
  qed
  show ?thesis
  proof (cases "c = CHR ''$''")
    case False
    with Cons show ?thesis by (simp add: placeholder_pattern_def)
  next
    case True
    have "run [] placeholder_pattern (p, xs, g) = concat (map h (rev [1..<Suc m]))"
      using True Cons unfolding h_def m_def
      by (simp add: placeholder_pattern_def rep_list ident_accepts map_concat comp_def o_def case_prod_unfold del: upt_Suc)
    with all at True Cons show ?thesis by simp
  qed
qed

lemma sub_fill:
  "sub_loop [] placeholder_pattern (\<lambda>g whole. dict_get d (g 1) whole) False p xs = fill_placeholders d xs"
proof (induction d xs arbitrary: p rule: fill_placeholders.induct)
  case (1 d)
  show ?case by (simp add: sub_loop_no_match_Nil match_at_first placeholder_run)
next
  case (2 d c t)
  define name where "name = takeWhile identifier_char t"
  define rest where "rest = dropWhile identifier_char t"
  let ?f = "\<lambda>g whole. dict_get d (g 1) whole"
  show ?case
  proof (cases "c = CHR ''$'' \<and> name \<noteq> [] \<and> take 1 rest = ''$''")
    case True
    then have rest: "rest = CHR ''$'' # tl rest" by (cases rest) auto
    have "t = name @ rest" by (simp add: name_def rest_def)
    with rest True have split: "c # t = (CHR ''$'' # name @ ''$'') @ tl rest" by simp
    from True have "match_at [] placeholder_pattern False p ((CHR ''$'' # name @ ''$'') @ tl rest)
        = Some (Some CHR ''$'', tl rest, [1 \<mapsto> name])"
      unfolding split[symmetric] by (simp add: match_at_first placeholder_run name_def rest_def)
    from sub_loop_match[OF this, of ?f]
    have "sub_loop [] placeholder_pattern ?f False p (c # t)
        = dict_get d (Some name) (CHR ''$'' # name @ ''$'') @ sub_loop [] placeholder_pattern ?f False (Some CHR ''$'') (tl rest)"
      unfolding split by simp
    also have "sub_loop [] placeholder_pattern ?f False (Some CHR ''$'') (tl rest) = fill_placeholders d (tl rest)"
      using True by (intro "2.IH"(1)[OF name_def rest_def]) simp
    finally show ?thesis using True
      by (simp add: fill_placeholders.simps(2) name_def rest_def dict_get_def Let_def split: option.splits)
  next
    case False
    then have "match_at [] placeholder_pattern False p (c # t) = None"
      by (auto simp: match_at_first placeholder_run name_def rest_def)
    from sub_loop_skip[OF this, of ?f]
    have "sub_loop [] placeholder_pattern ?f False p (c # t) = c # sub_loop [] placeholder_pattern ?f False (Some c) t" .
    also have "sub_loop [] placeholder_pattern ?f False (Some c) t = fill_placeholders d t"
      using False by (intro "2.IH"(2)[OF name_def rest_def]) simp
    finally show ?thesis using False
      by (auto simp: fill_placeholders.simps(2) name_def rest_def Let_def)
  qed
qed

lemma merge_fill:
  "merge_with_template body template md = Inr (fill_placeholders (md(''body'' \<mapsto> body)) template)"
proof -
  have "1 \<le> ngroups placeholder_pattern" by (simp add: placeholder_pattern_def)
  then show ?thesis
    unfolding merge_with_template_def re_sub_group1_def Let_def sub_fill by simp
qed

lemma fill_segments: "fill_placeholders d t = concat (map (render d) (segments t))"
proof (induction d t rule: fill_placeholders.induct)
  case (1 d)
  show ?case by simp
next
  case (2 d c t)
  show ?case
  proof (cases "c = CHR ''$'' \<and> takeWhile identifier_char t \<noteq> [] \<and> take 1 (dropWhile identifier_char t) = ''$''")
    case True
    with "2.IH"(1)[OF refl refl] show ?thesis
      by (simp add: fill_placeholders.simps(2) segments.simps(2) Let_def)
  next
    case False
    with "2.IH"(2)[OF refl refl] show ?thesis
      by (auto simp: fill_placeholders.simps(2) segments.simps(2) Let_def)
  qed
qed

lemma segments_example:
  "segments ''$x$ <h1>$title$</h1><i>$author$</i>$key$ $ $body$''
     = [Token ''x'', Literal CHR '' '', Literal CHR ''<'', Literal CHR ''h'', Literal CHR ''1'', Literal CHR ''>'',
        Token ''title'', Literal CHR ''<'', Literal CHR ''/'', Literal CHR ''h'', Literal CHR ''1'', Literal CHR ''>'',
        Literal CHR ''<'', Literal CHR ''i'', Literal CHR ''>'', Token ''author'',
        Literal CHR ''<'', Literal CHR ''/'', Literal CHR ''i'', Literal CHR ''>'', Token ''key'',
        Literal CHR '' '', Literal CHR ''$'', Literal CHR '' '', Token ''body'']"
  by (simp add: segments.simps(2) identifier_char_def between_def code_def)

section \<open>The paragraph rule\<close>







lemma run_Str_Cons:
  "run fl (Str (c # s)) (p, xs, g) =
     (case xs of [] \<Rightarrow> [] | x # t \<Rightarrow> if x = c then run fl (Str s) (Some c, t, g) else [])"
  by (cases xs) (auto simp: last_or_def)



lemma match_at_none:
  "set (run fl r (p, xs, Map.empty)) = {} \<Longrightarrow> match_at fl r adv p xs = None"
  by (simp add: match_at_def)














section \<open>The heading rule\<close>












section \<open>The metadata block\<close>






















section \<open>The claims\<close>










text \<open>
  C4: the body made of a line \<open>/\<close>, the lines \<open>line1\<close> and \<open>line2\<close> and a closing line
  \<open>/\<close> is turned into a \<open>div\<close> of class stanza, inside which both interior lines are
  wrapped as paragraphs: the result is the line \<open><div class=stanza>\<close> followed by the line
  \<open><p>line1</p><p>line2</p></div>\<close>.
\<close>

theorem stanza_example:
  "replace_file_marks (''/'' @ [NL] @ ''line1'' @ [NL] @ ''line2'' @ [NL] @ ''/'')
     = Inr (''<div class=stanza>'' @ [NL] @ ''<p>line1</p><p>line2</p></div>'' @ [NL])"
  by code_simp

text \<open>
  C5: each of the three core functions returns a result for every input: no branch that
  raises (a reference to a missing group, \<open>dict\<close> of an item that is not a pair, a search
  in \<open>None\<close>) is ever taken.
\<close>

theorem core_functions_total:
  "(\<exists>md rest. extract_metadata s = Inr (md, rest)) \<and> (\<exists>out. replace_file_marks s = Inr out) \<and> (\<exists>out. merge_with_template b t md = Inr out)"
proof (intro conjI)
  show "\<exists>md rest. extract_metadata s = Inr (md, rest)"
  proof (cases "re_search block_pattern s [DOTALL]")
    case None
    then show ?thesis by (simp add: extract_metadata_def)
  next
    case (Some m)
    obtain sk whole p' xs' g where m: "m = (sk, whole, (p', xs', g))" by (cases m) auto
    have "binds block_pattern 1" by (simp add: block_pattern_def)
    with Some m have "g 1 \<noteq> None" unfolding re_search_def by (auto dest: search_binds)
    then obtain block where block: "g 1 = Some block" by auto
    have "ngroups entry_pattern = 2" by (simp add: entry_pattern_def)
    from findall_pairs[OF this] obtain d' where "py_dict (re_findall entry_pattern block [MULTILINE]) Map.empty = Inr d'"
      unfolding re_findall_def by blast
    with Some m block show ?thesis by (simp add: extract_metadata_def Let_def)
  qed
  show "\<exists>out. replace_file_marks s = Inr out"
    by (simp add: replace_file_marks_def REPLACE_REGEXES_def re_sub_def)
  show "\<exists>out. merge_with_template b t md = Inr out"
    by (simp add: merge_with_template_def re_sub_group1_def placeholder_pattern_def Let_def)
qed

text \<open>
  C6: for every template and every metadata mapping, the merged text is the template in
  which each token \<open>$identifier$\<close> met by the scan from left to right (tokens never
  overlap) is replaced by the value the mapping, extended by the key \<open>body\<close>, has for
  exactly that identifier, and is left as it is, delimiters included, when the mapping
  has no such key.
\<close>

theorem placeholders_resolved:
  "merge_with_template body template md = Inr (fill_placeholders (md(''body'' \<mapsto> body)) template)"
  by (rule merge_fill)

text \<open>
  C7: substitution is a single pass.  The merged text is the concatenation, in order, of
  what the segments of the template contribute: a literal character itself, a token the
  value of its name (or the token itself when the name has no value).  The segments are
  a function of the template alone, so a value is put into the output as it is, whatever
  it contains and wherever its token stands, and is never scanned for placeholders: in
  the example the value of \<open>title\<close> holds \<open>$key$\<close> and \<open>$body$\<close>, both keys of the mapping, and
  the body holds \<open>$title$\<close>; all three appear literally in the output.
\<close>

theorem substitution_single_pass:
  "merge_with_template body template md
     = Inr (concat (map (render (md(''body'' \<mapsto> body))) (segments template)))"
  by (simp only: merge_fill fill_segments)

theorem substitution_single_pass_witness:
  "merge_with_template ''see $title$'' ''$x$ <h1>$title$</h1><i>$author$</i>$key$ $ $body$''
       [''title'' \<mapsto> ''$key$ and $body$'', ''key'' \<mapsto> ''K'']
     = Inr ''$x$ <h1>$key$ and $body$</h1><i>$author$</i>K $ see $title$''"
  using substitution_single_pass[of "''see $title$''" "''$x$ <h1>$title$</h1><i>$author$</i>$key$ $ $body$''"
       "[''title'' \<mapsto> ''$key$ and $body$'', ''key'' \<mapsto> ''K'']"]
  by (simp add: segments_example)

text \<open>
  C9: the empty body, and every body made of whitespace only, is formatted to exactly
  \<open><p></p>\<close>: the third rule empties it, the fourth appends a newline, and the last one
  wraps the empty line.
\<close>

theorem blank_body:
  assumes "\<forall>c\<in>set s. is_space c"
  shows "replace_file_marks s = Inr ''<p></p>''"
proof -
  let ?a = "sub_loop [] (Rep (Lit NL) 2 True) (expand [Txt [NL]]) False None s"
  let ?b = "sub_loop [] (Rep (Lit CHR '' '') 2 True) (expand [Txt '' '']) False None ?a"
  have tmpl: "\<And>g w. set (expand [Txt [NL]] g w) \<subseteq> Collect is_space"
    "\<And>g w. set (expand [Txt '' ''] g w) \<subseteq> Collect is_space"
    by (simp_all add: is_space_NL)
  from assms have "set s \<subseteq> Collect is_space" by auto
  from sub_loop_chars[OF tmpl(1) this] have "set ?a \<subseteq> Collect is_space" .
  from sub_loop_chars[OF tmpl(2) this] have "set ?b \<subseteq> Collect is_space" .
  then have "\<forall>c\<in>set ?b. is_space c" by auto
  from strip_rule_blank[OF this] show ?thesis
    by (simp add: marks_chain marks_of_empty)
qed

theorem blank_body_witness:
  "replace_file_marks [] = Inr ''<p></p>'' \<and> replace_file_marks ('' '' @ [NL, CHR 0x09] @ '' '') = Inr ''<p></p>''"
  using blank_body[of "[]"] blank_body[of "'' '' @ [NL, CHR 0x09] @ '' ''"]
  by (simp add: is_space_def between_def code_def)




end
